theory Spec2Isabelle
  imports Complex_Main "HOL-Library.Word" "HOL-Library.AList"
begin

section \<open>The statistics engine of memkeys (src/util/stats.cpp)\<close>

text \<open>
  The engine keeps one \<open>Stat\<close> per key fingerprint in \<open>_collection\<close>, an
  \<open>unordered_map<ssize_t, Stat>\<close>. \<open>Stats::increment\<close> feeds it, \<open>Stats::prune\<close>
  evicts slow keys, \<open>Stats::getLeaders\<close> and \<open>Stats::printStats\<close> read it, and
  \<open>Stats::start\<close> / \<open>Stats::shutdown\<close> drive the lifecycle.

  The class \<open>Stat\<close>, the class \<open>State\<close> and the header \<open>stats.h\<close> (with the template
  \<open>getLeaders<T>\<close>) are used by \<open>stats.cpp\<close>; the definitions that stand for them are
  marked as modelled from the specification.
\<close>

subsection \<open>Machine integers and time\<close>

type_synonym uint16 = "16 word"
type_synonym uint32 = "32 word"
type_synonym uint64 = "64 word"

text \<open>A clock reading. Every operation that reads the clock takes the reading as an
  argument.\<close>

type_synonym timestamp = nat

subsection \<open>The metric record\<close>

text \<open>Modelled from the spec: the class \<open>Stat\<close> (stat.h, stat.cpp). The spec's data model
  gives its fields: the key, the most recent size (unsigned), the count (unsigned 64-bit)
  and the time of creation.\<close>

record Stat =
  stat_key :: string
  stat_size :: uint32
  stat_count :: uint64
  firstSeenAt :: timestamp

text \<open>Modelled from the spec: the constructor \<open>Stat(key, size)\<close>, "a new entry with
  count = 1, size = size, firstSeenAt = now".\<close>

definition Stat_new :: "string \<Rightarrow> uint32 \<Rightarrow> timestamp \<Rightarrow> Stat" where
  "Stat_new k sz now = \<lparr>stat_key = k, stat_size = sz, stat_count = 1, firstSeenAt = now\<rparr>"

text \<open>Modelled from the spec: \<open>Stat::setSize\<close>, "overwrite its size with the new size".\<close>

definition setSize :: "Stat \<Rightarrow> uint32 \<Rightarrow> Stat" where
  "setSize stat sz = stat\<lparr>stat_size := sz\<rparr>"

text \<open>Modelled from the spec: \<open>Stat::increment\<close>, "increment its count by 1". The count
  is a 64-bit unsigned integer, so the addition is the one of \<open>uint64_t\<close>.\<close>

definition Stat_increment :: "Stat \<Rightarrow> Stat" where
  "Stat_increment stat = stat\<lparr>stat_count := stat_count stat + 1\<rparr>"

text \<open>Modelled from the spec: \<open>Stat::elapsed\<close>, "elapsed = now - firstSeenAt".\<close>

definition elapsed :: "timestamp \<Rightarrow> Stat \<Rightarrow> nat" where
  "elapsed now stat = now - firstSeenAt stat"

text \<open>Modelled from the spec: \<open>Stat::requestRate\<close>,
  "requestRate = count / max(elapsed, \<epsilon>)"; \<open>eps\<close> is the spec's \<epsilon>. The value is a
  \<open>double\<close> in the code and a real number here.\<close>

definition requestRate :: "real \<Rightarrow> timestamp \<Rightarrow> Stat \<Rightarrow> real" where
  "requestRate eps now stat = real (unat (stat_count stat)) / max (real (elapsed now stat)) eps"

text \<open>Modelled from the spec: \<open>Stat::bandwidth\<close>, "bandwidth = size * requestRate".\<close>

definition bandwidth :: "real \<Rightarrow> timestamp \<Rightarrow> Stat \<Rightarrow> real" where
  "bandwidth eps now stat = real (unat (stat_size stat)) * requestRate eps now stat"

subsection \<open>The aggregation table\<close>

text \<open>
  \<open>_collection\<close> is an \<open>unordered_map\<close> from fingerprints to \<open>Stat\<close>s. It is modelled
  as an association list: the order of the list is the order in which the map's iterator
  visits the entries, which the prune scan and the leaderboard walk. The type \<open>'k\<close> of
  fingerprints is \<open>ssize_t\<close> in the code. \<open>Stat::hashKey\<close> is not part of
  \<open>stats.cpp\<close> and is a parameter \<open>hashKey\<close> of the model.
\<close>

type_synonym 'k StatCollection = "('k \<times> Stat) list"

text \<open>
  \<open>Stats::increment\<close> (stats.cpp, lines 71-93). \<open>_collection.find(_key)\<close> is
  \<open>map_of\<close>; \<open>_collection[_key] = stat\<close> on a key that is present replaces the value
  in place; \<open>_collection.insert(it, ...)\<close> adds the new entry. Where the container puts a
  new entry in its iteration order is up to the container; the model puts it last.
\<close>

definition increment ::
  "(string \<Rightarrow> 'k) \<Rightarrow> timestamp \<Rightarrow> string \<Rightarrow> uint32 \<Rightarrow> 'k StatCollection \<Rightarrow> 'k StatCollection" where
  "increment hashKey now k sz coll =
     (let hkey = hashKey k in
      case map_of coll hkey of
        Some stat \<Rightarrow> AList.update hkey (Stat_increment (setSize stat sz)) coll
      | None \<Rightarrow> coll @ [(hkey, Stat_new k sz now)])"

text \<open>A sequence of calls \<open>increment(k, s_1) .. increment(k, s_N)\<close> for one key; each call
  comes with the clock reading at which it runs.\<close>

fun increment_calls ::
  "(string \<Rightarrow> 'k) \<Rightarrow> string \<Rightarrow> (timestamp \<times> uint32) list \<Rightarrow> 'k StatCollection \<Rightarrow> 'k StatCollection" where
  "increment_calls hashKey k [] coll = coll"
| "increment_calls hashKey k ((now, sz) # calls) coll =
     increment_calls hashKey k calls (increment hashKey now k sz coll)"


subsection \<open>Pruning\<close>

text \<open>
  The scan of one pruning cycle (lines 193-202): the iterator walks the table, an entry
  whose request rate is below the threshold is erased, any other entry is stepped over.
  \<open>now\<close> is the clock reading of the cycle. The scan runs with \<open>_mutex\<close> held, so no
  other operation on the table falls inside it.
\<close>

fun prune_scan :: "real \<Rightarrow> real \<Rightarrow> timestamp \<Rightarrow> 'k StatCollection \<Rightarrow> 'k StatCollection" where
  "prune_scan threshold eps now [] = []"
| "prune_scan threshold eps now ((h, stat) # rest) =
     (if requestRate eps now stat < threshold
      then prune_scan threshold eps now rest
      else (h, stat) # prune_scan threshold eps now rest)"

text \<open>
  \<open>_collection.rehash(0)\<close> (line 203) rebuilds the buckets of the map. It keeps every
  entry and may relink the nodes, so the order in which the iterator visits the entries
  afterwards is the container's choice. The choice is the argument \<open>perm\<close>: the entry at
  position \<open>i\<close> after the call is the one that stood at position \<open>perm ! i\<close> before it.
  A list that is not a permutation of the positions of the table stands for a call that
  leaves the order as it is.
\<close>

definition rehash :: "nat list \<Rightarrow> 'k StatCollection \<Rightarrow> 'k StatCollection" where
  "rehash perm coll = (if sort perm = [0..<length coll] then map (nth coll) perm else coll)"

text \<open>One round of the loop body (lines 192-208): the scan, then \<open>rehash(0)\<close>. The log
  line, the unlocking of \<open>_mutex\<close> and \<open>sleep(5)\<close> leave the table as it is.\<close>

definition prune_cycle ::
  "real \<Rightarrow> real \<Rightarrow> timestamp \<Rightarrow> nat list \<Rightarrow> 'k StatCollection \<Rightarrow> 'k StatCollection" where
  "prune_cycle threshold eps now perm coll = rehash perm (prune_scan threshold eps now coll)"

text \<open>
  The loop \<open>while (state.isRunning())\<close> of lines 191-209. Whether the loop goes round
  again is decided by the lifecycle state, which another thread sets; the list \<open>rounds\<close>
  has one element for each time the loop finds the state running, the clock reading of
  the round and the order that its \<open>rehash(0)\<close> leaves, and the loop ends with the list.
\<close>

fun prune_cycles ::
  "real \<Rightarrow> real \<Rightarrow> (timestamp \<times> nat list) list \<Rightarrow> 'k StatCollection \<Rightarrow> 'k StatCollection" where
  "prune_cycles threshold eps [] coll = coll"
| "prune_cycles threshold eps ((now, perm) # rounds) coll =
     prune_cycles threshold eps rounds (prune_cycle threshold eps now perm coll)"

text \<open>
  The threshold of line 180, \<open>static const double threshold = config->getDiscardThreshold()\<close>,
  is a static variable local to \<open>Stats::prune\<close>: the process has one, shared by every
  engine, and it is initialised the first time any engine runs \<open>prune\<close>, from the
  configuration of that engine. The variable is \<open>None\<close> before that first run and
  \<open>Some t\<close> afterwards. \<open>static_threshold\<close> is the value that a run of \<open>prune\<close> works
  with: the value \<open>configured\<close> for its engine when the run is the first of the process,
  and the value already held otherwise. \<open>Config::getDiscardThreshold\<close> is not part of
  \<open>stats.cpp\<close>; what it returns is the argument \<open>configured\<close>.
\<close>

definition static_threshold :: "real option \<Rightarrow> real \<Rightarrow> real" where
  "static_threshold held configured = (case held of None \<Rightarrow> configured | Some t \<Rightarrow> t)"

text \<open>
  \<open>Stats::prune\<close> (lines 179-211). It takes the static variable as it finds it and returns
  it as it leaves it, next to the table. With a threshold of zero the function only
  sleeps while the state is running and returns; otherwise it runs the cycles.
\<close>

definition prune ::
  "real option \<Rightarrow> real \<Rightarrow> real \<Rightarrow> (timestamp \<times> nat list) list \<Rightarrow> 'k StatCollection
     \<Rightarrow> real option \<times> 'k StatCollection" where
  "prune held configured eps rounds coll =
     (let threshold = static_threshold held configured in
      (Some threshold,
       if threshold = 0 then coll else prune_cycles threshold eps rounds coll))"

subsection \<open>The leaderboard\<close>

text \<open>Modelled from the spec: the enumerations \<open>SortMode\<close> and \<open>SortOrder\<close> of stats.h,
  "metric \<in> {count, size, requestRate, bandwidth}, order \<in> {ascending, descending}", with
  the names that stats.cpp gives to their values.\<close>

datatype SortMode = mode_REQRATE | mode_CALLS | mode_SIZE | mode_BANDWIDTH

datatype SortOrder = sort_DESC | sort_ASC

text \<open>The comparators that stats.cpp passes to the template \<open>getLeaders<T>\<close>.\<close>

datatype comparator = SortByCount | SortBySize | SortByReqRate | SortByBandwidth

text \<open>Modelled from the spec: the template \<open>getLeaders<T>()\<close> of stats.h, "an ordered
  sequence of Stat snapshots (copies), sorted descending by the chosen metric (count,
  size, request rate, or bandwidth)".\<close>

definition getLeaders_T ::
  "real \<Rightarrow> timestamp \<Rightarrow> comparator \<Rightarrow> 'k StatCollection \<Rightarrow> Stat list" where
  "getLeaders_T eps now cmp coll =
     (let stats = map snd coll in
      case cmp of
        SortByCount \<Rightarrow> rev (sort_key stat_count stats)
      | SortBySize \<Rightarrow> rev (sort_key stat_size stats)
      | SortByReqRate \<Rightarrow> rev (sort_key (requestRate eps now) stats)
      | SortByBandwidth \<Rightarrow> rev (sort_key (bandwidth eps now) stats))"

text \<open>\<open>Stats::getLeaders(mode, order)\<close> (lines 95-115): the switch over the mode, then
  the reversal for ascending order.\<close>

definition getLeaders ::
  "real \<Rightarrow> timestamp \<Rightarrow> SortMode \<Rightarrow> SortOrder \<Rightarrow> 'k StatCollection \<Rightarrow> Stat list" where
  "getLeaders eps now mode order coll =
     (let holder =
        (case mode of
           mode_CALLS \<Rightarrow> getLeaders_T eps now SortByCount coll
         | mode_SIZE \<Rightarrow> getLeaders_T eps now SortBySize coll
         | mode_REQRATE \<Rightarrow> getLeaders_T eps now SortByReqRate coll
         | mode_BANDWIDTH \<Rightarrow> getLeaders_T eps now SortByBandwidth coll)
      in if order = sort_ASC then rev holder else holder)"

subsection \<open>The diagnostic dump\<close>

text \<open>
  What \<open>printStats\<close> sends to \<open>cout\<close> is modelled as the list of the lines written,
  each one ended by \<open>endl\<close>. \<open>setw w\<close> makes the next field at least \<open>w\<close> characters
  wide: a shorter text is padded with the fill character (a space) on the left, a longer
  one is written in full.
\<close>

definition setw :: "nat \<Rightarrow> string \<Rightarrow> string" where
  "setw w s = replicate (w - length s) (CHR '' '') @ s"

text \<open>An unsigned integer written to the stream: its decimal digits.\<close>

definition digit_char :: "nat \<Rightarrow> char" where
  "digit_char d = ''0123456789'' ! d"

fun show_nat :: "nat \<Rightarrow> string" where
  "show_nat n = (if n < 10 then [digit_char n] else show_nat (n div 10) @ [digit_char (n mod 10)])"

declare show_nat.simps [simp del]

text \<open>The header line (lines 122-127).\<close>

definition header_line :: string where
  "header_line =
     setw 110 ''Key'' @ '', '' @ setw 10 ''Count'' @ '', '' @ setw 10 ''Elapsed'' @ '', '' @
     setw 10 ''Rate'' @ '', '' @ setw 10 ''Size'' @ '', '' @ setw 10 ''BW''"

text \<open>
  The texts of the six fields of a data line, before \<open>setw\<close> (lines 131-136). How the
  stream writes a \<open>double\<close> after \<open>setprecision(2)\<close> depends on the format flags of
  \<open>cout\<close>, which \<open>printStats\<close> does not set; the rendering is the parameter \<open>fmt\<close>.
\<close>

definition row_texts :: "(real \<Rightarrow> string) \<Rightarrow> real \<Rightarrow> timestamp \<Rightarrow> Stat \<Rightarrow> string list" where
  "row_texts fmt eps now stat =
     [stat_key stat,
      show_nat (unat (stat_count stat)),
      show_nat (elapsed now stat),
      fmt (requestRate eps now stat),
      show_nat (unat (stat_size stat)),
      fmt (bandwidth eps now stat)]"

definition print_row :: "(real \<Rightarrow> string) \<Rightarrow> real \<Rightarrow> timestamp \<Rightarrow> Stat \<Rightarrow> string" where
  "print_row fmt eps now stat =
     (case row_texts fmt eps now stat of
        [k, c, e, r, s, b] \<Rightarrow>
          setw 110 k @ '', '' @ setw 10 c @ '', '' @ setw 10 e @ '', '' @
          setw 10 r @ '', '' @ setw 10 s @ '', '' @ setw 10 b
      | _ \<Rightarrow> [])"

text \<open>The header is written when \<open>qsize\<close>, the size of the leaderboard held in a
  \<open>uint32_t\<close>, is positive (lines 119-128).\<close>

definition print_header :: "Stat list \<Rightarrow> string list" where
  "print_header q = (let qsize = (of_nat (length q) :: uint32) in
                     if qsize > 0 then [header_line] else [])"

text \<open>The loop of lines 129-137: it stops at the end of the leaderboard or when the
  counter \<open>i\<close>, a \<open>uint32_t\<close>, reaches the argument \<open>size\<close>, a \<open>uint16_t\<close> (\<open>sz\<close> here).\<close>

fun print_rows ::
  "(real \<Rightarrow> string) \<Rightarrow> real \<Rightarrow> timestamp \<Rightarrow> uint16 \<Rightarrow> uint32 \<Rightarrow> Stat list \<Rightarrow> string list" where
  "print_rows fmt eps now sz i [] = []"
| "print_rows fmt eps now sz i (stat # rest) =
     (if i < ucast sz
      then print_row fmt eps now stat # print_rows fmt eps now sz (i + 1) rest
      else [])"

text \<open>\<open>Stats::printStats\<close> (lines 117-138).\<close>

definition printStats ::
  "(real \<Rightarrow> string) \<Rightarrow> real \<Rightarrow> timestamp \<Rightarrow> uint16 \<Rightarrow> 'k StatCollection \<Rightarrow> string list" where
  "printStats fmt eps now sz coll =
     (let q = getLeaders_T eps now SortByCount coll
      in print_header q @ print_rows fmt eps now sz 0 q)"

text \<open>A rendering of a non-negative number in fixed notation with two decimals, the
  output of a stream whose \<open>fixed\<close> flag is set. It instantiates \<open>fmt\<close> in the
  examples.\<close>

definition fixed2 :: "real \<Rightarrow> string" where
  "fixed2 x = (let c = nat \<lfloor>x * 100 + 1 / 2\<rfloor> in
               show_nat (c div 100) @ ''.'' @ [digit_char (c mod 100 div 10), digit_char (c mod 10)])"

subsection \<open>The lifecycle\<close>

text \<open>Modelled from the spec: the states of the class \<open>State\<close>,
  "NEW \<rightarrow> RUNNING \<rightarrow> STOPPING \<rightarrow> TERMINATED", with the names stats.cpp uses.\<close>

datatype state_t = state_NEW | state_RUNNING | state_STOPPING | state_TERMINATED

text \<open>Modelled from the spec: \<open>State::checkAndSet\<close>, "transitions ... only if currently
  ... (atomic compare-and-set semantics)". It returns whether the state was the expected
  one, and the state afterwards.\<close>

definition checkAndSet :: "state_t \<Rightarrow> state_t \<Rightarrow> state_t \<Rightarrow> bool \<times> state_t" where
  "checkAndSet expected new st = (if st = expected then (True, new) else (False, st))"

text \<open>The member function a background thread runs.\<close>

datatype task = task_prune | task_collect

datatype log_level = TRACE | DEBUG | INFO | WARNING | ERROR

text \<open>What a lifecycle call does besides changing the object: the messages it logs, the
  threads it starts, and the threads it waits for with \<open>std::thread::join\<close>, a wait that
  takes no timeout.\<close>

datatype event = Log log_level string | Spawn task | Join task

text \<open>A thread handle is \<open>None\<close> while it is not joinable, and \<open>Some t\<close> while it stands
  for a thread running \<open>t\<close>.\<close>

record lifecycle =
  state :: state_t
  reaper_thread :: "task option"
  poller_thread :: "task option"

text \<open>Assigning to a joinable \<open>std::thread\<close> calls \<open>std::terminate\<close>; joining a thread
  that is not joinable throws \<open>std::system_error\<close>.\<close>

datatype failure = std_terminate | std_system_error

text \<open>\<open>Stats::start\<close> (lines 48-56).\<close>

definition start :: "lifecycle \<Rightarrow> failure + (event list \<times> lifecycle)" where
  "start L =
     (case checkAndSet state_NEW state_RUNNING (state L) of
        (True, st) \<Rightarrow>
          (if reaper_thread L \<noteq> None \<or> poller_thread L \<noteq> None then Inl std_terminate
           else Inr ([Log INFO ''Starting stats engine'', Spawn task_prune, Spawn task_collect],
                     L\<lparr>state := st, reaper_thread := Some task_prune,
                        poller_thread := Some task_collect\<rparr>))
      | (False, st) \<Rightarrow>
          Inr ([Log WARNING ''Stats engine already started''], L\<lparr>state := st\<rparr>))"

text \<open>\<open>Stats::shutdown\<close> (lines 58-69).\<close>

definition shutdown :: "lifecycle \<Rightarrow> failure + (event list \<times> lifecycle)" where
  "shutdown L =
     (case checkAndSet state_RUNNING state_STOPPING (state L) of
        (True, st) \<Rightarrow>
          (case reaper_thread L of
             None \<Rightarrow> Inl std_system_error
           | Some r \<Rightarrow>
               (case poller_thread L of
                  None \<Rightarrow> Inl std_system_error
                | Some p \<Rightarrow>
                    Inr ([Log INFO ''Stopping stats engine'',
                          Join r, Log INFO ''Repear thread dead'',
                          Join p, Log INFO ''Poller thread dead''],
                         L\<lparr>state := st, reaper_thread := None, poller_thread := None\<rparr>)))
      | (False, st) \<Rightarrow>
          Inr ([Log WARNING ''Stats engine already stopping''], L\<lparr>state := st\<rparr>))"

text \<open>The threads a call waits for, in the order of the waits.\<close>

fun joined :: "event list \<Rightarrow> task list" where
  "joined [] = []"
| "joined (Join t # es) = t # joined es"
| "joined (e # es) = joined es"

text \<open>A freshly constructed engine: the state is \<open>state_NEW\<close> and no thread has been
  started.\<close>

definition initial :: lifecycle where
  "initial = \<lparr>state = state_NEW, reaper_thread = None, poller_thread = None\<rparr>"

subsection \<open>The operations on the table\<close>

text \<open>The public operations that work on the table, and one pruning cycle, each with the
  clock reading it runs at; the pruning cycle comes with the threshold it compares with
  and the order that its \<open>rehash(0)\<close> leaves.\<close>

datatype operation =
    op_increment timestamp string uint32
  | op_prune_cycle real timestamp "nat list"
  | op_getLeaders timestamp SortMode SortOrder
  | op_printStats timestamp uint16
  | op_getStatCount

text \<open>The table an operation leaves behind. \<open>getLeaders\<close>, \<open>printStats\<close> and
  \<open>getStatCount\<close> read \<open>_collection\<close> and do not write to it.\<close>

fun table_after ::
  "(string \<Rightarrow> 'k) \<Rightarrow> real \<Rightarrow> operation \<Rightarrow> 'k StatCollection \<Rightarrow> 'k StatCollection" where
  "table_after hashKey eps (op_increment now k sz) coll = increment hashKey now k sz coll"
| "table_after hashKey eps (op_prune_cycle threshold now perm) coll =
     prune_cycle threshold eps now perm coll"
| "table_after hashKey eps (op_getLeaders now mode order) coll = coll"
| "table_after hashKey eps (op_printStats now sz) coll = coll"
| "table_after hashKey eps op_getStatCount coll = coll"

text \<open>The invariant of the table: every entry has a count of at least one.\<close>

definition count_positive :: "'k StatCollection \<Rightarrow> bool" where
  "count_positive coll = list_all (\<lambda>(h, stat). 1 \<le> stat_count stat) coll"

text \<open>No counter of the table stands at the largest value of a \<open>uint64_t\<close>.\<close>

definition counts_unsaturated :: "'k StatCollection \<Rightarrow> bool" where
  "counts_unsaturated coll = list_all (\<lambda>(h, stat). unat (stat_count stat) < 2 ^ 64 - 1) coll"

section \<open>Aggregation\<close>

lemma map_of_absent: "h \<notin> fst ` set coll \<Longrightarrow> map_of coll h = None"
  by (simp add: map_of_eq_None_iff)

lemma map_of_at_end: "h \<notin> fst ` set coll \<Longrightarrow> map_of (coll @ [(h, w)]) h = Some w"
  by (induction coll) auto

lemma update_at_end:
  "h \<notin> fst ` set coll \<Longrightarrow> AList.update h v (coll @ [(h, w)]) = coll @ [(h, v)]"
  by (induction coll) auto

lemma increment_creates:
  "hashKey k \<notin> fst ` set coll \<Longrightarrow>
   increment hashKey now k sz coll = coll @ [(hashKey k, Stat_new k sz now)]"
  by (simp add: increment_def map_of_absent)

lemma increment_updates:
  "hashKey k \<notin> fst ` set coll \<Longrightarrow>
   increment hashKey now k sz (coll @ [(hashKey k, stat)]) =
     coll @ [(hashKey k, Stat_increment (setSize stat sz))]"
  by (simp add: increment_def map_of_at_end update_at_end del: map_of_append)

lemma increment_calls_on_entry:
  "hashKey k \<notin> fst ` set coll \<Longrightarrow>
   increment_calls hashKey k calls (coll @ [(hashKey k, stat)]) =
     coll @ [(hashKey k,
              stat\<lparr>stat_size := (if calls = [] then stat_size stat else snd (last calls)),
                   stat_count := stat_count stat + of_nat (length calls)\<rparr>)]"
proof (induction calls arbitrary: stat)
  case Nil
  then show ?case by simp
next
  case (Cons c calls)
  obtain now sz where c: "c = (now, sz)" by (cases c)
  have "increment_calls hashKey k (c # calls) (coll @ [(hashKey k, stat)]) =
      increment_calls hashKey k calls (coll @ [(hashKey k, Stat_increment (setSize stat sz))])"
    using Cons.prems by (simp add: c increment_updates)
  also have "\<dots> = coll @ [(hashKey k,
      (Stat_increment (setSize stat sz))
        \<lparr>stat_size := (if calls = [] then stat_size (Stat_increment (setSize stat sz))
                       else snd (last calls)),
         stat_count := stat_count (Stat_increment (setSize stat sz)) + of_nat (length calls)\<rparr>)]"
    using Cons.prems by (rule Cons.IH)
  finally show ?case
    by (simp add: c Stat_increment_def setSize_def add.assoc)
qed

lemma increment_calls_from_absent:
  assumes "hashKey k \<notin> fst ` set coll" and "calls \<noteq> []"
  shows "increment_calls hashKey k calls coll =
     coll @ [(hashKey k, \<lparr>stat_key = k, stat_size = snd (last calls),
                 stat_count = of_nat (length calls), firstSeenAt = fst (hd calls)\<rparr>)]"
proof -
  obtain now sz rest where calls: "calls = (now, sz) # rest"
    using assms(2) by (cases calls) auto
  show ?thesis
    using assms(1)
    by (simp add: calls increment_creates increment_calls_on_entry Stat_new_def)
qed

text \<open>
  Claim C1. For a key \<open>k\<close> whose fingerprint has no entry in the table, \<open>N \<ge> 1\<close> calls
  \<open>increment(k, s_1) .. increment(k, s_N)\<close> with nothing else touching the table leave
  exactly one entry for the fingerprint of \<open>k\<close>. Its count equals \<open>N\<close> as a
  \<open>uint64_t\<close>, which is the number \<open>N\<close> itself as long as \<open>N\<close> is below \<open>2^64\<close>, and
  its size is \<open>s_N\<close>. The first call creates the entry with count 1.
\<close>

theorem increment_count_and_last_size:
  assumes "hashKey k \<notin> fst ` set coll" and "calls \<noteq> []"
  shows "\<exists>stat.
       filter (\<lambda>e. fst e = hashKey k) (increment_calls hashKey k calls coll) = [(hashKey k, stat)]
     \<and> stat_count stat = of_nat (length calls)
     \<and> (length calls < 2 ^ 64 \<longrightarrow> unat (stat_count stat) = length calls)
     \<and> stat_size stat = snd (last calls)
     \<and> map_of (increment hashKey (fst (hd calls)) k (snd (hd calls)) coll) (hashKey k)
         = Some (Stat_new k (snd (hd calls)) (fst (hd calls)))
     \<and> stat_count (Stat_new k (snd (hd calls)) (fst (hd calls))) = 1"
proof -
  let ?h = "hashKey k"
  let ?stat = "\<lparr>stat_key = k, stat_size = snd (last calls),
                stat_count = of_nat (length calls), firstSeenAt = fst (hd calls)\<rparr>"
  have tbl: "increment_calls hashKey k calls coll = coll @ [(?h, ?stat)]"
    using assms(1,2) by (rule increment_calls_from_absent)
  have none: "filter (\<lambda>e. fst e = ?h) coll = []"
    using assms(1) by (force simp: filter_empty_conv)
  have one: "filter (\<lambda>e. fst e = ?h) (increment_calls hashKey k calls coll) = [(?h, ?stat)]"
    by (simp add: tbl none)
  have cnt: "length calls < 2 ^ 64 \<longrightarrow> unat (stat_count ?stat) = length calls"
    by (simp add: unat_of_nat)
  have first: "map_of (increment hashKey (fst (hd calls)) k (snd (hd calls)) coll) ?h
      = Some (Stat_new k (snd (hd calls)) (fst (hd calls)))"
    using assms(1) by (simp add: increment_creates map_of_at_end del: map_of_append)
  show ?thesis
    using one cnt first by (intro exI [of _ ?stat]) (simp add: Stat_new_def)
qed

theorem increment_count_and_last_size_witness:
  "length ''foo'' \<notin> fst ` set ([] :: (nat \<times> Stat) list)
   \<and> [(0 :: timestamp, 10 :: uint32), (1, 10), (2, 10)] \<noteq> []
   \<and> length [(0 :: timestamp, 10 :: uint32), (1, 10), (2, 10)] < 2 ^ 64
   \<and> (\<exists>stat.
        filter (\<lambda>e. fst e = length ''foo'')
          (increment_calls length ''foo'' [(0 :: timestamp, 10 :: uint32), (1, 10), (2, 10)]
             ([] :: (nat \<times> Stat) list))
          = [(length ''foo'', stat)]
      \<and> stat_count stat = 3 \<and> unat (stat_count stat) = 3 \<and> stat_size stat = 10)"
  using increment_count_and_last_size
    [of length "''foo''" "[] :: (nat \<times> Stat) list"
        "[(0 :: timestamp, 10 :: uint32), (1, 10), (2, 10)]"]
  by (auto simp: numeral_3_eq_3)

section \<open>Pruning\<close>

lemma prune_scan_filter:
  "prune_scan T eps now coll = filter (\<lambda>e. T \<le> requestRate eps now (snd e)) coll"
  by (induction coll) (auto simp: not_less)

lemma rehash_positions:
  assumes "sort perm = [0..<length coll]"
  shows "set perm = {0..<length coll}" and "distinct perm"
proof -
  have "set perm = set (sort perm)" by simp
  then show "set perm = {0..<length coll}" by (simp only: assms set_upt)
  have "distinct (sort perm)" by (simp only: assms distinct_upt)
  then show "distinct perm" by simp
qed

lemma set_rehash: "set (rehash perm coll) = set coll"
proof (cases "sort perm = [0..<length coll]")
  case True
  have "set (map (nth coll) perm) = nth coll ` {0..<length coll}"
    by (simp add: rehash_positions(1) [OF True])
  also have "\<dots> = set coll"
    by (simp add: nth_image [of "length coll" coll, simplified])
  finally show ?thesis using True by (simp add: rehash_def)
next
  case False
  then show ?thesis by (simp add: rehash_def)
qed

lemma distinct_rehash:
  assumes "distinct (map fst coll)"
  shows "distinct (map fst (rehash perm coll))"
proof (cases "sort perm = [0..<length coll]")
  case True
  have below: "\<forall>i \<in> set perm. i < length (map fst coll)"
    by (simp add: rehash_positions(1) [OF True])
  have inj: "inj_on (nth (map fst coll)) (set perm)"
    using assms below by (rule inj_on_nth)
  have eq: "map fst (map (nth coll) perm) = map (nth (map fst coll)) perm"
    using below by simp
  have "distinct (map (nth (map fst coll)) perm)"
    using rehash_positions(2) [OF True] inj by (simp add: distinct_map)
  then have "distinct (map fst (map (nth coll) perm))"
    by (simp only: eq)
  moreover have "rehash perm coll = map (nth coll) perm"
    using True by (simp add: rehash_def)
  ultimately show ?thesis by (simp only:)
next
  case False
  then show ?thesis using assms by (simp add: rehash_def)
qed

lemma map_of_rehash:
  assumes "distinct (map fst coll)"
  shows "map_of (rehash perm coll) = map_of coll"
  using distinct_rehash [OF assms, of perm] assms set_rehash [of perm coll]
  by (simp add: map_of_inject_set)

lemma set_prune_cycle:
  "set (prune_cycle T eps now perm coll) = {e \<in> set coll. T \<le> requestRate eps now (snd e)}"
  by (simp add: prune_cycle_def set_rehash prune_scan_filter)

text \<open>
  Claim C2. Let \<open>T > 0\<close> be the discard threshold that the pruning loop compares with,
  which is the configured value when the run of \<open>prune\<close> is the first of the process and
  the value held by the static variable otherwise. After one pruning cycle every entry of
  the table was in the table before the cycle and had \<open>requestRate \<ge> T\<close> at the scan,
  and every entry that is gone had \<open>requestRate < T\<close> at the scan; the cycle adds no
  entry and removes no other one. Nothing is said of the order of the entries, which
  \<open>rehash(0)\<close> may change.
\<close>

theorem prune_cycle_partitions:
  assumes "0 < static_threshold held configured"
  shows "(\<forall>e \<in> set (snd (prune held configured eps [(now, perm)] coll)).
            e \<in> set coll \<and> static_threshold held configured \<le> requestRate eps now (snd e))
       \<and> (\<forall>e \<in> set coll.
            e \<notin> set (snd (prune held configured eps [(now, perm)] coll))
            \<longrightarrow> requestRate eps now (snd e) < static_threshold held configured)
       \<and> static_threshold None configured = configured
       \<and> static_threshold (Some t) configured = t"
proof -
  let ?T = "static_threshold held configured"
  have run: "snd (prune held configured eps [(now, perm)] coll) = prune_cycle ?T eps now perm coll"
    using assms by (simp add: prune_def Let_def)
  have kept: "\<forall>e \<in> set (prune_cycle ?T eps now perm coll).
      e \<in> set coll \<and> ?T \<le> requestRate eps now (snd e)"
    by (simp add: set_prune_cycle)
  have gone: "\<forall>e \<in> set coll. e \<notin> set (prune_cycle ?T eps now perm coll)
      \<longrightarrow> requestRate eps now (snd e) < ?T"
    by (auto simp: set_prune_cycle)
  show ?thesis
    using kept gone by (simp add: run static_threshold_def)
qed

theorem prune_cycle_partitions_witness:
  "0 < static_threshold None 2
   \<and> prune None 2 1 [(10, [1, 0])]
        [(1 :: nat, \<lparr>stat_key = ''hot'', stat_size = 10, stat_count = 50, firstSeenAt = 0\<rparr>),
         (2, \<lparr>stat_key = ''warm'', stat_size = 10, stat_count = 30, firstSeenAt = 0\<rparr>),
         (3, \<lparr>stat_key = ''cold'', stat_size = 10, stat_count = 1, firstSeenAt = 0\<rparr>)]
     = (Some 2,
        [(2, \<lparr>stat_key = ''warm'', stat_size = 10, stat_count = 30, firstSeenAt = 0\<rparr>),
         (1, \<lparr>stat_key = ''hot'', stat_size = 10, stat_count = 50, firstSeenAt = 0\<rparr>)])
   \<and> requestRate 1 10 \<lparr>stat_key = ''hot'', stat_size = 10, stat_count = 50, firstSeenAt = 0\<rparr> = 5
   \<and> requestRate 1 10 \<lparr>stat_key = ''warm'', stat_size = 10, stat_count = 30, firstSeenAt = 0\<rparr> = 3
   \<and> requestRate 1 10 \<lparr>stat_key = ''cold'', stat_size = 10, stat_count = 1, firstSeenAt = 0\<rparr>
       = 1 / 10"
  using prune_cycle_partitions [of None 2 1 10 "[1, 0]"
    "[(1 :: nat, \<lparr>stat_key = ''hot'', stat_size = 10, stat_count = 50, firstSeenAt = 0\<rparr>),
      (2, \<lparr>stat_key = ''warm'', stat_size = 10, stat_count = 30, firstSeenAt = 0\<rparr>),
      (3, \<lparr>stat_key = ''cold'', stat_size = 10, stat_count = 1, firstSeenAt = 0\<rparr>)]"]
  by (simp add: prune_def prune_cycle_def rehash_def static_threshold_def requestRate_def
      elapsed_def)




section \<open>Lifecycle\<close>

text \<open>
  Claim C4 (amended). \<open>start\<close> runs \<open>prune\<close> on \<open>reaper_thread\<close> and \<open>collect\<close> on
  \<open>poller_thread\<close>. When \<open>shutdown()\<close> is called on the engine that a successful
  \<open>start()\<close> left in the state RUNNING, it sets the state to STOPPING and then waits with
  \<open>join\<close>, which has no timeout, for the pruning loop first and for the ingestion
  (collect) loop second; it starts no thread.
\<close>

theorem shutdown_joins_reaper_then_poller:
  assumes "state L = state_NEW" and "start L = Inr (ev, R)"
  shows "state R = state_RUNNING
       \<and> (\<exists>ev' S. shutdown R = Inr (ev', S) \<and> state S = state_STOPPING
             \<and> joined ev' = [task_prune, task_collect]
             \<and> list_all (\<lambda>e. e \<noteq> Spawn task_prune \<and> e \<noteq> Spawn task_collect) ev')"
  using assms
  by (auto simp: start_def shutdown_def checkAndSet_def split: if_splits)

theorem shutdown_joins_reaper_then_poller_witness:
  "state initial = state_NEW
   \<and> start initial =
       Inr ([Log INFO ''Starting stats engine'', Spawn task_prune, Spawn task_collect],
            \<lparr>state = state_RUNNING, reaper_thread = Some task_prune,
             poller_thread = Some task_collect\<rparr>)
   \<and> (\<exists>ev' S. shutdown \<lparr>state = state_RUNNING, reaper_thread = Some task_prune,
             poller_thread = Some task_collect\<rparr> = Inr (ev', S) \<and> state S = state_STOPPING
             \<and> joined ev' = [task_prune, task_collect])"
proof -
  have a: "state initial = state_NEW" by (simp add: initial_def)
  have b: "start initial =
       Inr ([Log INFO ''Starting stats engine'', Spawn task_prune, Spawn task_collect],
            \<lparr>state = state_RUNNING, reaper_thread = Some task_prune,
             poller_thread = Some task_collect\<rparr>)"
    by (simp add: start_def initial_def checkAndSet_def)
  show ?thesis using a b shutdown_joins_reaper_then_poller [OF a b] by blast
qed

text \<open>The claim has the two waits in the other order, the ingestion loop first. On the
  engine as \<open>start\<close> leaves it, \<open>shutdown\<close> joins the thread that runs \<open>prune\<close> and
  then the thread that runs \<open>collect\<close>.\<close>

theorem shutdown_join_order_counterexample:
  "start initial =
     Inr ([Log INFO ''Starting stats engine'', Spawn task_prune, Spawn task_collect],
          \<lparr>state = state_RUNNING, reaper_thread = Some task_prune,
           poller_thread = Some task_collect\<rparr>)
   \<and> shutdown \<lparr>state = state_RUNNING, reaper_thread = Some task_prune,
                poller_thread = Some task_collect\<rparr> =
     Inr ([Log INFO ''Stopping stats engine'', Join task_prune, Log INFO ''Repear thread dead'',
           Join task_collect, Log INFO ''Poller thread dead''],
          \<lparr>state = state_STOPPING, reaper_thread = None, poller_thread = None\<rparr>)
   \<and> joined [Log INFO ''Stopping stats engine'', Join task_prune, Log INFO ''Repear thread dead'',
              Join task_collect, Log INFO ''Poller thread dead'']
       \<noteq> [task_collect, task_prune]"
  by (simp add: start_def shutdown_def initial_def checkAndSet_def)

text \<open>
  Claim C8. Misuse of the lifecycle is a no-op that does not throw: \<open>start()\<close> in a state
  other than NEW logs a warning and leaves the state and both thread handles as they
  were, starting no thread; \<open>shutdown()\<close> in a state other than RUNNING (for one, with no
  successful \<open>start()\<close> before it) logs a warning, changes nothing and joins nothing,
  so it has nothing to wait for.
\<close>

theorem lifecycle_misuse_is_noop:
  "(state L \<noteq> state_NEW \<longrightarrow>
      start L = Inr ([Log WARNING ''Stats engine already started''], L))
   \<and> (state L \<noteq> state_RUNNING \<longrightarrow>
      shutdown L = Inr ([Log WARNING ''Stats engine already stopping''], L))"
  by (simp add: start_def shutdown_def checkAndSet_def)

theorem lifecycle_misuse_is_noop_witness:
  "state \<lparr>state = state_RUNNING, reaper_thread = Some task_prune,
           poller_thread = Some task_collect\<rparr> \<noteq> state_NEW
   \<and> start \<lparr>state = state_RUNNING, reaper_thread = Some task_prune,
             poller_thread = Some task_collect\<rparr> =
       Inr ([Log WARNING ''Stats engine already started''],
            \<lparr>state = state_RUNNING, reaper_thread = Some task_prune,
             poller_thread = Some task_collect\<rparr>)
   \<and> state initial \<noteq> state_RUNNING
   \<and> shutdown initial = Inr ([Log WARNING ''Stats engine already stopping''], initial)"
  using lifecycle_misuse_is_noop [of "\<lparr>state = state_RUNNING, reaper_thread = Some task_prune,
           poller_thread = Some task_collect\<rparr>"]
    lifecycle_misuse_is_noop [of initial]
  by (simp add: initial_def)

section \<open>Leaderboard\<close>

lemma length_getLeaders_T: "length (getLeaders_T eps now cmp coll) = length coll"
  by (cases cmp) (simp_all add: getLeaders_T_def)

lemma getLeaders_T_count_sorted:
  "sorted_wrt (\<lambda>a b. stat_count b \<le> stat_count a) (getLeaders_T eps now SortByCount coll)"
proof -
  have "sorted (map stat_count (sort_key stat_count (map snd coll)))"
    by (rule sorted_sort_key)
  then have "sorted_wrt (\<lambda>a b. stat_count a \<le> stat_count b) (sort_key stat_count (map snd coll))"
    by (simp only: sorted_map)
  then show ?thesis
    by (simp add: getLeaders_T_def sorted_wrt_rev)
qed

text \<open>
  Claim C6. The sequence \<open>getLeaders(count, descending)\<close> is non-increasing in count:
  of any two of its elements, the later one has a count that is at most the count of the
  earlier one.
\<close>

theorem getLeaders_count_desc_nonincreasing:
  "sorted_wrt (\<lambda>a b. stat_count b \<le> stat_count a)
     (getLeaders eps now mode_CALLS sort_DESC coll)"
  using getLeaders_T_count_sorted [of eps now coll] by (simp add: getLeaders_def)

text \<open>
  Claim C7. For every metric \<open>m\<close>, \<open>getLeaders(m, ascending)\<close> is the exact reverse of
  \<open>getLeaders(m, descending)\<close> on the same table at the same clock reading: the same
  elements, every pair of them, tied or not, in the opposite order.
\<close>

theorem getLeaders_asc_is_reverse:
  "getLeaders eps now m sort_ASC coll = rev (getLeaders eps now m sort_DESC coll)"
  by (simp add: getLeaders_def)

section \<open>Diagnostic dump\<close>

lemma unat_uint16_bound: "unat (sz :: uint16) < 2 ^ 16"
  using unsigned_less [of sz, where ?'a = nat] by simp

lemma unat_ucast_16_32: "unat (ucast (sz :: uint16) :: uint32) = unat sz"
proof -
  have "unat sz < 2 ^ 32" using unat_uint16_bound [of sz] by simp
  then show ?thesis by (simp add: unsigned_ucast_eq take_bit_nat_eq_self)
qed

lemma print_rows_take:
  "print_rows fmt eps now sz i q = map (print_row fmt eps now) (take (unat sz - unat i) q)"
proof (induction q arbitrary: i)
  case Nil
  then show ?case by simp
next
  case (Cons stat rest)
  show ?case
  proof (cases "i < ucast sz")
    case True
    then have lt: "unat i < unat sz"
      by (simp add: word_less_nat_alt unat_ucast_16_32)
    have "unat sz < 2 ^ 16" by (rule unat_uint16_bound)
    then have "unat i + 1 < 2 ^ 32" using lt by simp
    then have suc: "unat (i + 1) = unat i + 1"
      by (simp add: unat_word_ariths)
    have "take (unat sz - unat i) (stat # rest) = stat # take (unat sz - unat (i + 1)) rest"
      using lt by (simp add: suc take_Cons')
    then show ?thesis using True by (simp add: Cons.IH)
  next
    case False
    then have "unat sz \<le> unat i"
      by (simp add: word_less_nat_alt unat_ucast_16_32)
    then show ?thesis using False by simp
  qed
qed

lemma print_header_bounded:
  "length q < 2 ^ 32 \<Longrightarrow> print_header q = (if q = [] then [] else [header_line])"
  by (auto simp add: print_header_def Let_def word_greater_zero_iff of_nat_0 unat_of_nat
      word_eq_iff_unsigned[where ?'a = nat])

lemma length_setw: "length (setw w s) = max w (length s)"
  by (simp add: setw_def)

lemma print_row_unfold:
  "print_row fmt eps now stat =
     setw 110 (stat_key stat) @ '', '' @
     setw 10 (show_nat (unat (stat_count stat))) @ '', '' @
     setw 10 (show_nat (elapsed now stat)) @ '', '' @
     setw 10 (fmt (requestRate eps now stat)) @ '', '' @
     setw 10 (show_nat (unat (stat_size stat))) @ '', '' @
     setw 10 (fmt (bandwidth eps now stat))"
  by (simp add: print_row_def row_texts_def)

lemma printStats_unfold:
  "printStats fmt eps now sz coll =
     print_header (getLeaders_T eps now SortByCount coll) @
     map (print_row fmt eps now) (take (unat sz) (getLeaders_T eps now SortByCount coll))"
  by (simp add: printStats_def Let_def print_rows_take)

text \<open>
  Claim C5 (amended). \<open>printStats(n)\<close> writes the header, when the size of the leaderboard
  as a \<open>uint32_t\<close> is positive, and then one line for each of the first \<open>n\<close> entries of
  the leaderboard sorted by count, largest first. A line has six fields separated by a
  comma and a space. \<open>setw\<close> gives a field a least width, 110 characters for the key
  and 10 for each number: a shorter text is right-aligned and padded with spaces, a longer
  text is written in full. So a line has at least 170 characters, and exactly 170 when
  the key has at most 110 characters and every other text at most 10. Rate and bandwidth
  are written as the stream renders a \<open>double\<close> after \<open>setprecision(2)\<close>.
\<close>

theorem printStats_layout:
  "printStats fmt eps now sz coll =
     print_header (getLeaders_T eps now SortByCount coll) @
     map (print_row fmt eps now) (take (unat sz) (getLeaders_T eps now SortByCount coll))
   \<and> sorted_wrt (\<lambda>a b. stat_count b \<le> stat_count a) (getLeaders_T eps now SortByCount coll)
   \<and> print_row fmt eps now stat =
       setw 110 (stat_key stat) @ '', '' @
       setw 10 (show_nat (unat (stat_count stat))) @ '', '' @
       setw 10 (show_nat (elapsed now stat)) @ '', '' @
       setw 10 (fmt (requestRate eps now stat)) @ '', '' @
       setw 10 (show_nat (unat (stat_size stat))) @ '', '' @
       setw 10 (fmt (bandwidth eps now stat))
   \<and> length (setw w s) = max w (length s)
   \<and> drop (length (setw w s) - length s) (setw w s) = s
   \<and> 170 \<le> length (print_row fmt eps now stat)
   \<and> (length (stat_key stat) \<le> 110
        \<and> list_all (\<lambda>t. length t \<le> 10) (tl (row_texts fmt eps now stat))
      \<longrightarrow> length (print_row fmt eps now stat) = 170)"
proof -
  have a: "drop (length (setw w s) - length s) (setw w s) = s"
    by (simp add: setw_def)
  have b: "170 \<le> length (print_row fmt eps now stat)"
    by (simp add: print_row_unfold length_setw)
  have c: "length (stat_key stat) \<le> 110
        \<and> list_all (\<lambda>t. length t \<le> 10) (tl (row_texts fmt eps now stat))
      \<longrightarrow> length (print_row fmt eps now stat) = 170"
    by (simp add: print_row_unfold length_setw row_texts_def max_def)
  show ?thesis
    apply (intro conjI)
          apply (rule printStats_unfold)
         apply (rule getLeaders_T_count_sorted)
        apply (rule print_row_unfold)
       apply (rule length_setw)
      apply (rule a)
     apply (rule b)
    apply (rule c)
    done
qed

theorem printStats_layout_witness:
  "length (stat_key \<lparr>stat_key = ''foo'', stat_size = 10, stat_count = 3, firstSeenAt = 0\<rparr>) \<le> 110
   \<and> list_all (\<lambda>t. length t \<le> 10)
        (tl (row_texts fixed2 1 20
               \<lparr>stat_key = ''foo'', stat_size = 10, stat_count = 3, firstSeenAt = 0\<rparr>))
   \<and> length (print_row fixed2 1 20
               \<lparr>stat_key = ''foo'', stat_size = 10, stat_count = 3, firstSeenAt = 0\<rparr>) = 170"
  (is "?fits_key \<and> ?fits_rest \<and> ?len")
proof -
  have texts: "row_texts fixed2 1 20
      \<lparr>stat_key = ''foo'', stat_size = 10, stat_count = 3, firstSeenAt = 0\<rparr>
      = [''foo'', ''3'', ''20'', ''0.15'', ''10'', ''1.50'']"
    by code_simp
  have k: ?fits_key by simp
  have r: ?fits_rest by (simp add: texts)
  have "?fits_key \<and> ?fits_rest \<longrightarrow> ?len"
    using printStats_layout [of fixed2 1 20 0 "[] :: (nat \<times> Stat) list"
        "\<lparr>stat_key = ''foo'', stat_size = 10, stat_count = 3, firstSeenAt = 0\<rparr>" 0 "[]"]
    by (elim conjE)
  with k r show ?thesis by blast
qed

text \<open>The claim has a table of fixed width with a key column of 110 characters. A key
  of 111 characters takes 111 characters of its line, which is then longer than the header
  line.\<close>

theorem printStats_fixed_width_counterexample:
  "map length
     (printStats fixed2 1 1 1
        [(0 :: nat, \<lparr>stat_key = replicate 111 (CHR ''k''), stat_size = 1, stat_count = 1,
                      firstSeenAt = 0\<rparr>)]) = [170, 171]
   \<and> take 113 (printStats fixed2 1 1 1
        [(0 :: nat, \<lparr>stat_key = replicate 111 (CHR ''k''), stat_size = 1, stat_count = 1,
                      firstSeenAt = 0\<rparr>)] ! 1) = replicate 111 (CHR ''k'') @ '', ''"
  by code_simp

text \<open>
  Claim C10. \<open>printStats(n)\<close> writes the header line if and only if the table is not
  empty, whatever \<open>n\<close> is: on an empty table it writes nothing, on a table that is not
  empty it writes the header and then the data lines, and \<open>printStats(0)\<close> writes the
  header and no data line. The code holds the size of the leaderboard in a \<open>uint32_t\<close>,
  and the table has fewer than \<open>2^32\<close> entries.
\<close>

theorem printStats_header_iff_nonempty:
  assumes "length coll < 2 ^ 32"
  shows "(coll = [] \<longrightarrow> printStats fmt eps now sz coll = [])
       \<and> (coll \<noteq> [] \<longrightarrow>
            printStats fmt eps now sz coll =
              header_line # map (print_row fmt eps now)
                                (take (unat sz) (getLeaders_T eps now SortByCount coll)))
       \<and> (coll \<noteq> [] \<longrightarrow> printStats fmt eps now 0 coll = [header_line])
       \<and> ((take 1 (printStats fmt eps now sz coll) = [header_line]) = (coll \<noteq> []))"
proof -
  let ?q = "getLeaders_T eps now SortByCount coll"
  have len: "length ?q < 2 ^ 32" using assms by (simp add: length_getLeaders_T)
  have nil: "(?q = []) = (coll = [])"
    using length_getLeaders_T [of eps now SortByCount coll] by (metis length_0_conv)
  have hdr: "print_header ?q = (if coll = [] then [] else [header_line])"
    using print_header_bounded [OF len] nil by simp
  show ?thesis
  proof (cases "coll = []")
    case True
    then have "?q = []" using nil by simp
    then show ?thesis using True by (simp add: printStats_unfold hdr print_header_def)
  next
    case False
    then show ?thesis by (simp add: printStats_unfold hdr)
  qed
qed

theorem printStats_header_iff_nonempty_witness:
  "length ([] :: (nat \<times> Stat) list) < 2 ^ 32
   \<and> printStats fixed2 1 20 5 ([] :: (nat \<times> Stat) list) = []
   \<and> length [(3 :: nat, \<lparr>stat_key = ''foo'', stat_size = 10, stat_count = 3, firstSeenAt = 0\<rparr>)]
       < 2 ^ 32
   \<and> printStats fixed2 1 20 0
        [(3 :: nat, \<lparr>stat_key = ''foo'', stat_size = 10, stat_count = 3, firstSeenAt = 0\<rparr>)]
       = [header_line]"
  using printStats_header_iff_nonempty [of "[] :: (nat \<times> Stat) list" fixed2 1 20 5]
    printStats_header_iff_nonempty
      [of "[(3 :: nat, \<lparr>stat_key = ''foo'', stat_size = 10, stat_count = 3, firstSeenAt = 0\<rparr>)]"
          fixed2 1 20 0]
  by simp

section \<open>The invariant of the table\<close>

lemma distinct_increment:
  "distinct (map fst coll) \<Longrightarrow> distinct (map fst (increment hashKey now k sz coll))"
  by (auto simp: increment_def Let_def distinct_update map_of_eq_None_iff split: option.splits)

lemma distinct_prune_scan:
  "distinct (map fst coll) \<Longrightarrow> distinct (map fst (prune_scan T eps now coll))"
  by (simp add: prune_scan_filter distinct_map_filter)

lemma distinct_prune_cycle:
  "distinct (map fst coll) \<Longrightarrow> distinct (map fst (prune_cycle T eps now perm coll))"
  by (simp add: prune_cycle_def distinct_rehash distinct_prune_scan)

lemma map_of_prune_cycle:
  "distinct (map fst coll) \<Longrightarrow>
   map_of (prune_cycle T eps now perm coll) = map_of (prune_scan T eps now coll)"
  by (simp add: prune_cycle_def map_of_rehash distinct_prune_scan)

lemma distinct_table_after:
  "distinct (map fst coll) \<Longrightarrow> distinct (map fst (table_after hashKey eps op coll))"
  by (cases op) (simp_all add: distinct_increment distinct_prune_cycle)

lemma count_positive_iff:
  "count_positive coll = (\<forall>(h, stat) \<in> set coll. 1 \<le> stat_count stat)"
  by (simp add: count_positive_def list_all_iff)

lemma word_succ_positive: "unat (c :: uint64) < 2 ^ 64 - 1 \<Longrightarrow> 1 \<le> c + 1"
proof -
  assume "unat c < 2 ^ 64 - 1"
  then have "unat (c + 1) = unat c + 1"
    by (simp add: unat_word_ariths)
  then have "c + 1 \<noteq> 0" by (metis Suc_eq_plus1 nat.distinct(1) unat_0 Zero_not_Suc unsigned_0)
  then show ?thesis by (simp add: word_le_nat_alt unat_gt_0 Suc_le_eq)
qed

lemma set_update_subset:
  "set (AList.update h v coll) \<subseteq> insert (h, v) (set coll)"
  by (induction coll) auto

lemma count_positive_increment:
  assumes "count_positive coll" and "counts_unsaturated coll"
  shows "count_positive (increment hashKey now k sz coll)"
proof (cases "map_of coll (hashKey k)")
  case None
  then show ?thesis
    using assms(1) by (simp add: increment_def count_positive_def Stat_new_def)
next
  case (Some stat)
  then have mem: "(hashKey k, stat) \<in> set coll" by (rule map_of_SomeD)
  then have "unat (stat_count stat) < 2 ^ 64 - 1"
    using assms(2) by (auto simp: counts_unsaturated_def list_all_iff)
  then have pos: "1 \<le> stat_count (Stat_increment (setSize stat sz))"
    by (simp add: Stat_increment_def setSize_def word_succ_positive)
  have "\<forall>(h, s) \<in> insert (hashKey k, Stat_increment (setSize stat sz)) (set coll). 1 \<le> stat_count s"
    using assms(1) pos by (auto simp: count_positive_iff)
  then have "\<forall>(h, s) \<in> set (AList.update (hashKey k) (Stat_increment (setSize stat sz)) coll).
      1 \<le> stat_count s"
    using set_update_subset [of "hashKey k" "Stat_increment (setSize stat sz)" coll] by blast
  then show ?thesis
    using Some by (simp add: increment_def count_positive_iff)
qed

lemma count_positive_prune_cycle:
  "count_positive coll \<Longrightarrow> count_positive (prune_cycle T eps now perm coll)"
  by (auto simp: count_positive_iff set_prune_cycle)

lemma count_positive_table_after:
  assumes "count_positive coll" and "counts_unsaturated coll"
  shows "count_positive (table_after hashKey eps op coll)"
  using assms by (cases op) (simp_all add: count_positive_increment count_positive_prune_cycle)

lemma firstSeenAt_increment:
  assumes "map_of coll h = Some stat"
    and "map_of (increment hashKey now k sz coll) h = Some stat'"
  shows "firstSeenAt stat' = firstSeenAt stat"
proof (cases "map_of coll (hashKey k)")
  case None
  then have "map_of (increment hashKey now k sz coll) h = map_of coll h"
    using assms(1) by (simp add: increment_def map_add_def)
  then show ?thesis using assms by simp
next
  case (Some old)
  then have upd: "map_of (increment hashKey now k sz coll) =
      (map_of coll)(hashKey k \<mapsto> Stat_increment (setSize old sz))"
    by (simp add: increment_def update_conv')
  show ?thesis
  proof (cases "h = hashKey k")
    case True
    then have "old = stat" and "stat' = Stat_increment (setSize old sz)"
      using assms Some upd by simp_all
    then show ?thesis by (simp add: Stat_increment_def setSize_def)
  next
    case False
    then show ?thesis using assms upd by simp
  qed
qed

lemma map_of_filter_distinct:
  "distinct (map fst coll) \<Longrightarrow> map_of (filter P coll) h = Some v \<Longrightarrow> map_of coll h = Some v"
  by (metis filter_is_subset map_of_SomeD map_of_is_SomeI subsetD)

lemma firstSeenAt_table_after:
  assumes "distinct (map fst coll)" and "map_of coll h = Some stat"
    and "map_of (table_after hashKey eps op coll) h = Some stat'"
  shows "firstSeenAt stat' = firstSeenAt stat"
proof (cases op)
  case (op_increment now k sz)
  then show ?thesis using assms(2,3) by (simp add: firstSeenAt_increment)
next
  case (op_prune_cycle T now perm)
  then have "map_of (prune_scan T eps now coll) h = Some stat'"
    using assms(1,3) by (simp add: map_of_prune_cycle)
  then have "map_of coll h = Some stat'"
    using assms(1) by (simp add: prune_scan_filter map_of_filter_distinct)
  then show ?thesis using assms(2) by simp
qed (use assms in simp_all)

lemma created_by_increment:
  assumes "map_of coll h = None"
    and "map_of (table_after hashKey eps op coll) h = Some stat'"
  shows "\<exists>now k sz. op = op_increment now k sz \<and> h = hashKey k \<and> stat' = Stat_new k sz now"
proof (cases op)
  case (op_increment now k sz)
  show ?thesis
  proof (cases "map_of coll (hashKey k)")
    case None
    then show ?thesis using assms op_increment
      by (auto simp: increment_def map_add_def split: if_splits option.splits)
  next
    case (Some old)
    then have "h \<noteq> hashKey k" using assms(1) by auto
    then show ?thesis using assms op_increment Some
      by (simp add: increment_def update_conv')
  qed
next
  case (op_prune_cycle T now perm)
  have "h \<notin> fst ` set coll" using assms(1) by (simp add: map_of_eq_None_iff)
  then have "h \<notin> fst ` set (prune_cycle T eps now perm coll)"
    by (auto simp: set_prune_cycle)
  then have "map_of (prune_cycle T eps now perm coll) h = None"
    by (simp add: map_of_eq_None_iff)
  then show ?thesis using assms op_prune_cycle by simp
qed (use assms in simp_all)

text \<open>
  Claim C9. Every operation (\<open>increment\<close>, a pruning cycle, \<open>getLeaders\<close>, \<open>printStats\<close>,
  \<open>getStatCount\<close>) keeps the invariant of the table: the fingerprints stay distinct and
  every entry has a count of at least one. An entry that is in the table before and
  after the operation keeps its \<open>firstSeenAt\<close>; an entry that is new after the operation
  was created by \<open>increment\<close>, with count 1 and \<open>firstSeenAt\<close> the clock reading of that
  call. The count is a \<open>uint64_t\<close>; no counter in the table stands at its largest value.
\<close>

theorem table_invariant_preserved:
  assumes "distinct (map fst coll)" and "count_positive coll" and "counts_unsaturated coll"
  shows "distinct (map fst (table_after hashKey eps op coll))
       \<and> count_positive (table_after hashKey eps op coll)
       \<and> (\<forall>h stat stat'.
            map_of coll h = Some stat \<and> map_of (table_after hashKey eps op coll) h = Some stat'
            \<longrightarrow> firstSeenAt stat' = firstSeenAt stat)
       \<and> (\<forall>h stat'.
            map_of coll h = None \<and> map_of (table_after hashKey eps op coll) h = Some stat'
            \<longrightarrow> (\<exists>now k sz. op = op_increment now k sz \<and> h = hashKey k
                    \<and> stat' = Stat_new k sz now \<and> stat_count stat' = 1
                    \<and> firstSeenAt stat' = now))"
proof (intro conjI allI impI)
  show "distinct (map fst (table_after hashKey eps op coll))"
    using assms(1) by (rule distinct_table_after)
  show "count_positive (table_after hashKey eps op coll)"
    using assms(2,3) by (rule count_positive_table_after)
next
  fix h stat stat'
  assume a: "map_of coll h = Some stat \<and> map_of (table_after hashKey eps op coll) h = Some stat'"
  show "firstSeenAt stat' = firstSeenAt stat"
    by (rule firstSeenAt_table_after [OF assms(1) conjunct1 [OF a] conjunct2 [OF a]])
next
  fix h stat'
  assume a: "map_of coll h = None \<and> map_of (table_after hashKey eps op coll) h = Some stat'"
  obtain now k sz where "op = op_increment now k sz" "h = hashKey k"
      "stat' = Stat_new k sz now"
    using created_by_increment [OF conjunct1 [OF a] conjunct2 [OF a]] by auto
  then show "\<exists>now k sz. op = op_increment now k sz \<and> h = hashKey k
      \<and> stat' = Stat_new k sz now \<and> stat_count stat' = 1 \<and> firstSeenAt stat' = now"
    by (simp add: Stat_new_def)
qed

theorem table_invariant_preserved_witness:
  "distinct (map fst
     [(3 :: nat, \<lparr>stat_key = ''foo'', stat_size = 10, stat_count = 3, firstSeenAt = 0\<rparr>)])
   \<and> count_positive
     [(3 :: nat, \<lparr>stat_key = ''foo'', stat_size = 10, stat_count = 3, firstSeenAt = 0\<rparr>)]
   \<and> counts_unsaturated
     [(3 :: nat, \<lparr>stat_key = ''foo'', stat_size = 10, stat_count = 3, firstSeenAt = 0\<rparr>)]
   \<and> table_after length 1 (op_increment 5 ''foo'' 7)
       [(3 :: nat, \<lparr>stat_key = ''foo'', stat_size = 10, stat_count = 3, firstSeenAt = 0\<rparr>)]
       = [(3, \<lparr>stat_key = ''foo'', stat_size = 7, stat_count = 4, firstSeenAt = 0\<rparr>)]
   \<and> count_positive (table_after length 1 (op_increment 5 ''foo'' 7)
       [(3 :: nat, \<lparr>stat_key = ''foo'', stat_size = 10, stat_count = 3, firstSeenAt = 0\<rparr>)])"
  (is "?d \<and> ?p \<and> ?b \<and> ?t \<and> ?q")
proof -
  have d: ?d by simp
  have p: ?p by (simp add: count_positive_def)
  have b: ?b by (simp add: counts_unsaturated_def)
  have t: ?t by (simp add: increment_def Stat_increment_def setSize_def)
  have q: ?q
    using table_invariant_preserved [OF d p b, of length 1 "op_increment 5 ''foo'' 7"]
    by (elim conjE)
  show ?thesis using d p b t q by (intro conjI)
qed

end
